theory Spec2Isabelle
  imports Complex_Main "HOL-Library.Sublist"
begin

section \<open>FASTQ preprocessing: the model of Script\_personalizado.py\<close>

text \<open>
  Python strings are modelled as \<^typ>\<open>string\<close>, so a character is a code point below 256
  (FASTQ files are ASCII). Python integers are \<^typ>\<open>int\<close>. The true division of two
  integers is taken exactly, in \<^typ>\<open>rat\<close>: the rounding of the result to a float is not
  modelled. A text file is the list of the strings that successive \<open>readline()\<close> calls
  return; at the end of the file \<open>readline()\<close> returns the empty string.
\<close>

subsection \<open>Python string primitives\<close>

definition nl :: char where
  "nl = CHR 0x0A"

text \<open>\<open>str.isspace\<close> on one character, for the code points below 256.\<close>

definition isspace :: "char \<Rightarrow> bool" where
  "isspace c = ((of_char c :: nat) \<in> {9, 10, 11, 12, 13, 28, 29, 30, 31, 32, 133, 160})"

text \<open>\<open>s.strip()\<close>: leading and trailing whitespace removed.\<close>

definition strip :: "string \<Rightarrow> string" where
  "strip s = rev (dropWhile isspace (rev (dropWhile isspace s)))"

text \<open>\<open>s[a:]\<close> and \<open>s[:b]\<close>: a negative index counts from the end, and an index
  beyond either end is clipped to it.\<close>

definition slice_from :: "int \<Rightarrow> 'a list \<Rightarrow> 'a list" where
  "slice_from a s =
     (if 0 \<le> a then drop (nat a) s else drop (nat (int (length s) + a)) s)"

definition slice_to :: "int \<Rightarrow> 'a list \<Rightarrow> 'a list" where
  "slice_to b s =
     (if 0 \<le> b then take (nat b) s else take (nat (int (length s) + b)) s)"

text \<open>\<open>s.replace(old, new)\<close>: one scan from the left; at a position where \<open>old\<close>
  starts, \<open>new\<close> is emitted and the scan resumes after the occurrence. An empty
  \<open>old\<close> matches before every character and at the end.\<close>

function replace :: "'a list \<Rightarrow> 'a list \<Rightarrow> 'a list \<Rightarrow> 'a list" where
  "replace old new [] = (if old = [] then new else [])"
| "replace old new (c # cs) =
     (if old = [] then new @ c # replace old new cs
      else if prefix old (c # cs) then new @ replace old new (drop (length old) (c # cs))
      else c # replace old new cs)"
  by pat_completeness auto
termination
  by (relation "measure (\<lambda>(old, new, s). length s)") auto

subsection \<open>Known adapters and parameters\<close>

definition ADAPTADORES :: "(string \<times> string) list" where
  "ADAPTADORES =
     [(''TruSeq'', ''AGATCGGAAGAG''),
      (''SmallRNA'', ''TGGAATTCTCGG''),
      (''Nextera'', ''CTGTCTCTTATA'')]"

record params =
  adaptador :: string
  trim_left :: int
  trim_right :: int
  min_quality :: int
  min_mean_quality :: int
  min_length :: int
  max_length :: "int option"
  max_n :: int
  remove_duplicates :: bool

text \<open>\<open>obtener_parametros\<close>, the value stored under \<open>max_length\<close>: a configured 0
  becomes \<open>None\<close> (both in the JSON file and at the prompt).\<close>

definition obtener_max_length :: "int option \<Rightarrow> int option" where
  "obtener_max_length v = (if v = Some 0 then None else v)"

subsection \<open>Record reader\<close>

definition readline :: "string list \<Rightarrow> string \<times> string list" where
  "readline f = (case f of [] \<Rightarrow> ([], []) | l # ls \<Rightarrow> (l, ls))"

function leer_fastq :: "string list \<Rightarrow> (string \<times> string \<times> string) list" where
  "leer_fastq f =
     (let header = strip (fst (readline f)); f1 = snd (readline f) in
      if header = [] then []
      else
        let secuencia = strip (fst (readline f1)); f2 = snd (readline f1);
            f3 = snd (readline f2);
            calidades = strip (fst (readline f3)); f4 = snd (readline f3)
        in (header, secuencia, calidades) # leer_fastq f4)"
  by pat_completeness auto
termination
proof (relation "measure length", goal_cases)
  case 1
  show ?case by simp
next
  case (2 f header f1 secuencia f2 f3 calidades f4)
  have shrink: "length (snd (readline g)) \<le> length g" for g
    by (simp add: readline_def split: list.splits)
  have "f \<noteq> []"
    using 2 by (auto simp: readline_def strip_def)
  then have "length f1 < length f"
    using 2 by (simp add: readline_def split: list.splits)
  moreover have "length f4 \<le> length f1"
    using 2 shrink [of f1] shrink [of f2] shrink [of f3] by simp
  ultimately show ?case by simp
qed

declare leer_fastq.simps [simp del]

subsection \<open>Phred decoding and the filter chain\<close>

definition phred_a_valor :: "char \<Rightarrow> int" where
  "phred_a_valor caracter = of_char caracter - 33"

text \<open>Adapter removal, the first statement of \<open>procesar_secuencia\<close>.\<close>

definition quitar_adaptador :: "params \<Rightarrow> string \<Rightarrow> string" where
  "quitar_adaptador p secuencia =
     (if adaptador p \<noteq> ''auto'' then replace (adaptador p) [] secuencia
      else fold (\<lambda>adaptador s. replace adaptador [] s) (map snd ADAPTADORES) secuencia)"

text \<open>Fixed trimming, the two slicing statements that \<open>procesar_secuencia\<close> applies to
  the sequence and then to the qualities.\<close>

definition recortar :: "params \<Rightarrow> 'a list \<Rightarrow> 'a list" where
  "recortar p s =
     (let s = slice_from (trim_left p) s in
      if trim_right p > 0 then slice_to (- trim_right p) s else s)"

text \<open>\<open>params['max_length'] or float('inf')\<close>: \<open>None\<close> stands for infinity.\<close>

definition max_length_or_inf :: "params \<Rightarrow> int option" where
  "max_length_or_inf p =
     (case max_length p of None \<Rightarrow> None | Some m \<Rightarrow> if m = 0 then None else Some m)"

definition le_inf :: "int \<Rightarrow> int option \<Rightarrow> bool" where
  "le_inf n b = (case b of None \<Rightarrow> True | Some m \<Rightarrow> n \<le> m)"

definition serializar :: "string \<Rightarrow> string \<Rightarrow> string \<Rightarrow> string" where
  "serializar header secuencia calidades =
     header @ [nl] @ secuencia @ [nl] @ ''+'' @ [nl] @ calidades @ [nl]"

definition procesar_secuencia :: "string \<Rightarrow> string \<Rightarrow> string \<Rightarrow> params \<Rightarrow> string option" where
  "procesar_secuencia header secuencia calidades p =
     (let secuencia = quitar_adaptador p secuencia;
          secuencia = recortar p secuencia;
          calidades = recortar p calidades;
          valores_phred = map phred_a_valor calidades
      in if valores_phred = [] then None
         else if min_list valores_phred < min_quality p then None
         else if (of_int (sum_list valores_phred) / of_int (int (length valores_phred)) :: rat)
                   < of_int (min_mean_quality p) then None
         else if \<not> (min_length p \<le> int (length secuencia)
                     \<and> le_inf (int (length secuencia)) (max_length_or_inf p)) then None
         else if int (count_list secuencia CHR ''N'') > max_n p then None
         else Some (serializar header secuencia calidades))"

subsection \<open>File processor\<close>

text \<open>The local variables of \<open>procesar_archivo\<close>. The field \<open>evaluadas\<close> is not in the
  source: it logs, in order, the records handed to \<open>procesar_secuencia\<close>.\<close>

record estado =
  secuencias_vistas :: "string set"
  total_v :: nat
  conservadas_v :: nat
  out :: string
  evaluadas :: "(string \<times> string \<times> string) list"

definition inicial :: estado where
  "inicial = \<lparr>secuencias_vistas = {}, total_v = 0, conservadas_v = 0, out = [], evaluadas = []\<rparr>"

text \<open>One iteration of the loop over the records.\<close>

definition paso :: "params \<Rightarrow> estado \<Rightarrow> string \<times> string \<times> string \<Rightarrow> estado" where
  "paso p e r =
     (case r of (header, seq, qual) \<Rightarrow>
        let e = e\<lparr>total_v := total_v e + 1\<rparr> in
        if remove_duplicates p \<and> seq \<in> secuencias_vistas e then e
        else
          let e = (if remove_duplicates p
                   then e\<lparr>secuencias_vistas := insert seq (secuencias_vistas e)\<rparr> else e);
              sec_procesada = procesar_secuencia header seq qual p;
              e = e\<lparr>evaluadas := evaluadas e @ [(header, seq, qual)]\<rparr>
          in (case sec_procesada of
                None \<Rightarrow> e
              | Some txt \<Rightarrow>
                  (if txt \<noteq> []
                   then e\<lparr>out := out e @ txt, conservadas_v := conservadas_v e + 1\<rparr>
                   else e)))"

definition bucle :: "params \<Rightarrow> (string \<times> string \<times> string) list \<Rightarrow> estado" where
  "bucle p registros = foldl (paso p) inicial registros"

record resultado =
  archivo :: string
  total_r :: nat
  conservadas_r :: nat
  porcentaje :: rat

text \<open>\<open>procesar_archivo\<close>: the input file is its name and its lines; the result is the
  returned dictionary together with the text written to the output file.\<close>

definition procesar_archivo :: "string \<Rightarrow> string list \<Rightarrow> params \<Rightarrow> resultado \<times> string" where
  "procesar_archivo nombre lineas p =
     (let e = bucle p (leer_fastq lineas);
          total = total_v e;
          conservadas = conservadas_v e
      in (\<lparr>archivo = nombre, total_r = total, conservadas_r = conservadas,
           porcentaje = (if total > 0 then (of_nat conservadas / of_nat total) * 100 else 0)\<rparr>,
          out e))"

subsection \<open>Notation for the intermediate values of the filter chain\<close>

abbreviation valores :: "params \<Rightarrow> string \<Rightarrow> int list" where
  "valores p cal \<equiv> map phred_a_valor (recortar p cal)"

abbreviation sec_final :: "params \<Rightarrow> string \<Rightarrow> string" where
  "sec_final p sec \<equiv> recortar p (quitar_adaptador p sec)"

abbreviation media :: "int list \<Rightarrow> rat" where
  "media v \<equiv> of_int (sum_list v) / of_int (int (length v))"

abbreviation longitud_ok :: "params \<Rightarrow> string \<Rightarrow> bool" where
  "longitud_ok p s \<equiv>
     min_length p \<le> int (length s) \<and> le_inf (int (length s)) (max_length_or_inf p)"

abbreviation n_ok :: "params \<Rightarrow> string \<Rightarrow> bool" where
  "n_ok p s \<equiv> \<not> int (count_list s CHR ''N'') > max_n p"

abbreviation raw_seq :: "string \<times> string \<times> string \<Rightarrow> string" where
  "raw_seq r \<equiv> fst (snd r)"

abbreviation aceptado :: "params \<Rightarrow> string \<times> string \<times> string \<Rightarrow> bool" where
  "aceptado p r \<equiv> procesar_secuencia (fst r) (fst (snd r)) (snd (snd r)) p \<noteq> None"

text \<open>The invariant of the loop when duplicates are removed: the set of seen sequences
  is the set of the raw sequences of the records evaluated so far, each of them once.\<close>

definition inv_dedup :: "estado \<Rightarrow> bool" where
  "inv_dedup e \<longleftrightarrow>
     secuencias_vistas e = set (map raw_seq (evaluadas e)) \<and> distinct (map raw_seq (evaluadas e))"

text \<open>For the statement of adapter removal: the pieces \<open>us\<close> joined by the separator
  \<open>sep\<close>, as \<open>sep.join(us)\<close>.\<close>

fun unir :: "'a list \<Rightarrow> 'a list list \<Rightarrow> 'a list" where
  "unir sep [] = []"
| "unir sep [u] = u"
| "unir sep (u # v # us) = u @ sep @ unir sep (v # us)"

text \<open>The pieces left by a scan from the left that cuts at each leftmost occurrence of
  \<open>old\<close>: no occurrence of \<open>old\<close> starts inside a piece that is followed by a cut, and
  none is left in the last piece.\<close>

fun cortes_a_la_izquierda :: "'a list \<Rightarrow> 'a list list \<Rightarrow> bool" where
  "cortes_a_la_izquierda old [] = False"
| "cortes_a_la_izquierda old [u] = (\<not> sublist old u)"
| "cortes_a_la_izquierda old (u # v # us) =
     (\<not> sublist old (u @ butlast old) \<and> cortes_a_la_izquierda old (v # us))"

text \<open>The text that the loop writes for an evaluated record: the serialised record when
  the filter chain accepts it, nothing otherwise.\<close>

abbreviation texto :: "params \<Rightarrow> string \<times> string \<times> string \<Rightarrow> string" where
  "texto p r \<equiv>
     (case procesar_secuencia (fst r) (fst (snd r)) (snd (snd r)) p of
        None \<Rightarrow> [] | Some t \<Rightarrow> t)"

text \<open>For the statement of deduplication: the records without repeats, where each record
  stays and every later record with the same raw sequence is deleted.\<close>

fun sin_repetidos ::
  "(string \<times> string \<times> string) list \<Rightarrow> (string \<times> string \<times> string) list" where
  "sin_repetidos [] = []"
| "sin_repetidos (r # rs) = r # sin_repetidos (filter (\<lambda>x. raw_seq x \<noteq> raw_seq r) rs)"

subsection \<open>Example inputs\<close>

definition ej_auto :: params where
  "ej_auto =
     \<lparr>adaptador = ''auto'', trim_left = 0, trim_right = 0, min_quality = 20,
      min_mean_quality = 25, min_length = 0, max_length = None, max_n = 2,
      remove_duplicates = True\<rparr>"

definition ej_lineas :: "string list" where
  "ej_lineas =
     [''@r1'' @ [nl], ''ACGT'' @ [nl], ''+'' @ [nl], ''IIII'' @ [nl],
      ''@r2'' @ [nl], ''ACGT'' @ [nl], ''+'' @ [nl], ''IIII'' @ [nl]]"

definition ej_truncado :: "string list" where
  "ej_truncado = [''@r1'' @ [nl], ''ACGT'' @ [nl]]"

definition ej_registros :: "(string \<times> string \<times> string) list" where
  "ej_registros = [(''@r1'', ''ACGT'', ''####''), (''@r2'', ''ACGT'', ''IIII'')]"

definition ej_params :: params where
  "ej_params =
     \<lparr>adaptador = [], trim_left = 0, trim_right = 0, min_quality = 20,
      min_mean_quality = 25, min_length = 0, max_length = None, max_n = 2,
      remove_duplicates = True\<rparr>"

definition ej_trim_negativo :: params where
  "ej_trim_negativo = ej_params\<lparr>trim_left := - 1\<rparr>"

definition ej_grupo :: "string list" where
  "ej_grupo = [''@r0'' @ [nl], ''AC'' @ [nl], ''+'' @ [nl], ''II'' @ [nl]]"

definition ej_sin_dedup :: params where
  "ej_sin_dedup = ej_params\<lparr>remove_duplicates := False\<rparr>"

definition ej_recorte :: params where
  "ej_recorte = ej_params\<lparr>adaptador := ''AC'', trim_left := 1, trim_right := 1\<rparr>"

definition ej_negativo :: params where
  "ej_negativo = ej_params\<lparr>adaptador := ''AC'', max_length := Some (- 1)\<rparr>"

definition ej_laxo :: params where
  "ej_laxo = ej_params\<lparr>min_quality := 10, min_mean_quality := 10, max_n := 5\<rparr>"

definition ej_adaptador :: params where
  "ej_adaptador = ej_params\<lparr>adaptador := ''AC''\<rparr>"

definition ej_longitud :: params where
  "ej_longitud = ej_params\<lparr>min_length := 2, max_length := Some 4\<rparr>"


section \<open>Properties of the Python primitives\<close>

lemma slice_from_nonneg: "0 \<le> a \<Longrightarrow> slice_from a s = drop (nat a) s"
  by (simp add: slice_from_def)

lemma slice_to_neg: "0 < b \<Longrightarrow> slice_to (- b) s = rev (drop (nat b) (rev s))"
  by (simp add: slice_to_def rev_drop rev_take) (simp add: nat_diff_distrib' take_rev)

lemma replace_Nil_Nil [simp]: "replace [] [] s = s"
  by (induction s) simp_all

section \<open>Properties of the trimming step\<close>

lemma length_recortar_mono:
  "length s \<le> length t \<Longrightarrow> length (recortar p s) \<le> length (recortar p t)"
  by (auto simp: recortar_def Let_def slice_from_def slice_to_def)

lemma length_recortar_lipschitz:
  "length s \<le> length t \<Longrightarrow>
   length (recortar p t) - length (recortar p s) \<le> length t - length s"
  by (auto simp: recortar_def Let_def slice_from_def slice_to_def)

lemma length_recortar_eq:
  "length s = length t \<Longrightarrow> length (recortar p s) = length (recortar p t)"
  by (auto simp: recortar_def Let_def slice_from_def slice_to_def)

lemma recortar_nonneg:
  "0 \<le> trim_left p \<Longrightarrow> 0 \<le> trim_right p \<Longrightarrow>
   recortar p s = rev (drop (nat (trim_right p)) (rev (drop (nat (trim_left p)) s)))"
  by (cases "trim_right p = 0")
    (simp_all add: recortar_def Let_def slice_from_nonneg slice_to_neg)

lemma recortar_0: "trim_left p = 0 \<Longrightarrow> trim_right p = 0 \<Longrightarrow> recortar p s = s"
  by (simp add: recortar_def slice_from_def)

lemma quitar_adaptador_Nil: "adaptador p = [] \<Longrightarrow> quitar_adaptador p s = s"
  by (simp add: quitar_adaptador_def)

section \<open>The filter chain as one case distinction\<close>

lemma procesar_secuencia_iff:
  "procesar_secuencia h sec cal p =
     (if valores p cal = [] \<or> Min (set (valores p cal)) < min_quality p
         \<or> media (valores p cal) < of_int (min_mean_quality p)
         \<or> \<not> longitud_ok p (sec_final p sec) \<or> \<not> n_ok p (sec_final p sec)
      then None else Some (serializar h (sec_final p sec) (recortar p cal)))"
proof (cases "valores p cal = []")
  case True
  then show ?thesis by (simp add: procesar_secuencia_def)
next
  case False
  then have "min_list (valores p cal) = Min (set (valores p cal))"
    by (rule min_list_Min)
  with False show ?thesis
    by (simp add: procesar_secuencia_def Let_def)
qed

lemma procesar_secuencia_Some:
  "procesar_secuencia h sec cal p = Some txt \<Longrightarrow>
   txt = serializar h (sec_final p sec) (recortar p cal) \<and> recortar p cal \<noteq> []"
  by (auto simp: procesar_secuencia_def Let_def split: if_splits)

lemma le_inf_iff:
  "le_inf n (max_length_or_inf p) \<longleftrightarrow> \<not> (\<exists>m. max_length p = Some m \<and> m \<noteq> 0 \<and> m < n)"
  by (auto simp: le_inf_def max_length_or_inf_def split: option.splits)

section \<open>Fixed trimming\<close>

text \<open>
  Claim C7. For non-negative \<open>trim_left\<close> and \<open>trim_right\<close>, the trimming step drops the
  first \<open>trim_left\<close> characters and the last \<open>trim_right\<close> characters; with
  \<open>trim_right = 0\<close> the right end is untouched; a trim that meets or exceeds the length of
  the string gives the empty string (the model is total: no error arises); and an accepted
  record carries the sequence and the qualities trimmed in this same way.
\<close>

theorem fixed_trimming:
  assumes "0 \<le> trim_left p" and "0 \<le> trim_right p"
  shows "recortar p s = rev (drop (nat (trim_right p)) (rev (drop (nat (trim_left p)) s)))
       \<and> (trim_right p = 0 \<longrightarrow> recortar p s = drop (nat (trim_left p)) s)
       \<and> (length s \<le> nat (trim_left p) + nat (trim_right p) \<longrightarrow> recortar p s = [])
       \<and> (\<forall>h sec cal txt. procesar_secuencia h sec cal p = Some txt \<longrightarrow>
            txt = serializar h
                    (rev (drop (nat (trim_right p))
                       (rev (drop (nat (trim_left p)) (quitar_adaptador p sec)))))
                    (rev (drop (nat (trim_right p)) (rev (drop (nat (trim_left p)) cal)))))"
proof -
  have eq: "recortar p t = rev (drop (nat (trim_right p)) (rev (drop (nat (trim_left p)) t)))"
    for t :: "'b list"
    using assms by (rule recortar_nonneg)
  have "trim_right p = 0 \<longrightarrow> recortar p s = drop (nat (trim_left p)) s"
    by (simp add: eq)
  moreover have "length s \<le> nat (trim_left p) + nat (trim_right p) \<longrightarrow> recortar p s = []"
    by (simp add: eq)
  moreover have "\<forall>h sec cal txt. procesar_secuencia h sec cal p = Some txt \<longrightarrow>
            txt = serializar h
                    (rev (drop (nat (trim_right p))
                       (rev (drop (nat (trim_left p)) (quitar_adaptador p sec)))))
                    (rev (drop (nat (trim_right p)) (rev (drop (nat (trim_left p)) cal))))"
    using procesar_secuencia_Some eq by metis
  ultimately show ?thesis using eq by blast
qed

theorem fixed_trimming_witness:
  "0 \<le> trim_left ej_recorte \<and> 0 \<le> trim_right ej_recorte
   \<and> recortar ej_recorte ''ACGTAC'' = ''CGTA''
   \<and> recortar ej_recorte ''A'' = []
   \<and> procesar_secuencia ''@r1'' ''ACGGTT'' ''IIIIII'' ej_recorte
       = Some (serializar ''@r1'' ''GT'' ''IIII'')"
proof -
  have h1: "0 \<le> trim_left ej_recorte" and h2: "0 \<le> trim_right ej_recorte"
    by (simp_all add: ej_recorte_def ej_params_def)
  have acc: "procesar_secuencia ''@r1'' ''ACGGTT'' ''IIIIII'' ej_recorte
       = Some (serializar ''@r1'' ''GT'' ''IIII'')"
    by code_simp
  have vals: "nat (trim_left ej_recorte) = 1" "nat (trim_right ej_recorte) = 1"
    by (simp_all add: ej_recorte_def ej_params_def)
  from fixed_trimming [OF h1 h2, of "''ACGTAC''"] fixed_trimming [OF h1 h2, of "''A''"]
  have "recortar ej_recorte ''ACGTAC'' = ''CGTA''" and "recortar ej_recorte ''A'' = []"
    by (simp_all add: vals)
  with h1 h2 acc show ?thesis by simp
qed

section \<open>Length gap between qualities and sequence\<close>

text \<open>
  Claim C2, as stated for every record and every parameter set, fails: with
  \<open>trim_left = -1\<close> the slice keeps the last character of each string, so the sequence
  \<open>ACG\<close> with the single quality \<open>I\<close> is accepted as \<open>G\<close> and \<open>I\<close>. The emitted gap is
  0, while the gap after adapter removal is \<open>1 - 3 = -2\<close>.
\<close>

theorem length_gap_counterexample:
  "procesar_secuencia ''@r1'' ''ACG'' ''I'' ej_trim_negativo
     = Some (serializar ''@r1'' ''G'' ''I'')
   \<and> quitar_adaptador ej_trim_negativo ''ACG'' = ''ACG''
   \<and> \<not> (int (length ''I'') - int (length ''G'')
          \<le> int (length ''I'') - int (length (quitar_adaptador ej_trim_negativo ''ACG'')))"
  by code_simp

text \<open>
  Claim C2, amended. Write \<open>S\<close> for the length of the sequence after adapter removal and
  \<open>Q\<close> for the length of the qualities (adapter removal leaves them alone). Whenever
  \<open>trim_left\<close> is not negative, or \<open>S \<le> Q\<close>, the qualities of an accepted record are
  longer than its sequence by at most \<open>Q - S\<close>; and when \<open>S = Q\<close> the two emitted lengths
  are equal, for every trim.
\<close>

theorem length_gap_bounded:
  assumes acc: "procesar_secuencia h sec cal p = Some txt"
    and dom: "0 \<le> trim_left p \<or> length (quitar_adaptador p sec) \<le> length cal"
  shows "txt = serializar h (sec_final p sec) (recortar p cal)
       \<and> int (length (recortar p cal)) - int (length (sec_final p sec))
           \<le> int (length cal) - int (length (quitar_adaptador p sec))
       \<and> (length (quitar_adaptador p sec) = length cal \<longrightarrow>
            length (sec_final p sec) = length (recortar p cal))"
proof -
  let ?s = "quitar_adaptador p sec"
  have out: "txt = serializar h (recortar p ?s) (recortar p cal)"
    and ne: "recortar p cal \<noteq> []"
    using procesar_secuencia_Some [OF acc] by simp_all
  have bound: "int (length (recortar p cal)) - int (length (recortar p ?s))
           \<le> int (length cal) - int (length ?s)"
  proof (cases "length ?s \<le> length cal")
    case True
    from length_recortar_lipschitz [OF True, of p] length_recortar_mono [OF True, of p] True
    show ?thesis by linarith
  next
    case False
    with dom have tl: "0 \<le> trim_left p" by simp
    from ne have "0 < length (recortar p cal)" by simp
    with tl False show ?thesis
      by (auto simp: recortar_def Let_def slice_from_def slice_to_def split: if_splits)
  qed
  from out bound length_recortar_eq show ?thesis by blast
qed

theorem length_gap_bounded_witness:
  "procesar_secuencia ''@r1'' ''ACGGTT'' ''IIIIII'' ej_recorte
     = Some (serializar ''@r1'' ''GT'' ''IIII'')
   \<and> 0 \<le> trim_left ej_recorte
   \<and> serializar ''@r1'' ''GT'' ''IIII''
       = serializar ''@r1'' (sec_final ej_recorte ''ACGGTT'') (recortar ej_recorte ''IIIIII'')
   \<and> int (length (recortar ej_recorte ''IIIIII'')) - int (length (sec_final ej_recorte ''ACGGTT''))
       \<le> int (length ''IIIIII'') - int (length (quitar_adaptador ej_recorte ''ACGGTT''))"
proof -
  have acc: "procesar_secuencia ''@r1'' ''ACGGTT'' ''IIIIII'' ej_recorte
       = Some (serializar ''@r1'' ''GT'' ''IIII'')"
    by code_simp
  have tl: "0 \<le> trim_left ej_recorte"
    by (simp add: ej_recorte_def ej_params_def)
  from length_gap_bounded [OF acc disjI1 [OF tl]] acc tl show ?thesis by blast
qed


section \<open>Quality thresholds\<close>

text \<open>
  Claim C5. With non-empty trimmed qualities: a record whose smallest decoded value is below
  \<open>min_quality\<close> (one point below, in particular) is rejected; one whose smallest decoded
  value equals \<open>min_quality\<close> passes the per-base check, so that it is rejected only by a
  later check; and a record that passes the per-base check is rejected by the mean check
  when its mean is strictly below \<open>min_mean_quality\<close>, and otherwise goes on to the
  length and ambiguity checks.
\<close>

theorem quality_thresholds_inclusive:
  assumes "valores p cal \<noteq> []"
  shows "(Min (set (valores p cal)) < min_quality p \<longrightarrow> procesar_secuencia h sec cal p = None)
    \<and> (Min (set (valores p cal)) = min_quality p \<longrightarrow>
         (procesar_secuencia h sec cal p = None \<longleftrightarrow>
            media (valores p cal) < of_int (min_mean_quality p)
            \<or> \<not> longitud_ok p (sec_final p sec) \<or> \<not> n_ok p (sec_final p sec)))
    \<and> (min_quality p \<le> Min (set (valores p cal)) \<longrightarrow>
         (if media (valores p cal) < of_int (min_mean_quality p)
          then procesar_secuencia h sec cal p = None
          else (procesar_secuencia h sec cal p = None \<longleftrightarrow>
                  \<not> longitud_ok p (sec_final p sec) \<or> \<not> n_ok p (sec_final p sec))))"
  using assms by (simp add: procesar_secuencia_iff not_less del: Min_ge_iff set_map)

theorem quality_thresholds_inclusive_witness:
  "valores ej_params ''4I'' \<noteq> []
   \<and> Min (set (valores ej_params ''4I'')) = min_quality ej_params - 1
   \<and> procesar_secuencia ''@r1'' ''AC'' ''4I'' ej_params = None
   \<and> valores ej_params ''5I'' \<noteq> []
   \<and> Min (set (valores ej_params ''5I'')) = min_quality ej_params
   \<and> procesar_secuencia ''@r1'' ''AC'' ''5I'' ej_params \<noteq> None"
proof -
  have a: "valores ej_params ''4I'' \<noteq> []" and b: "valores ej_params ''5I'' \<noteq> []"
    by code_simp+
  have ma: "Min (set (valores ej_params ''4I'')) = min_quality ej_params - 1"
    and mb: "Min (set (valores ej_params ''5I'')) = min_quality ej_params"
    by code_simp+
  have later: "\<not> media (valores ej_params ''5I'') < of_int (min_mean_quality ej_params)"
    "longitud_ok ej_params (sec_final ej_params ''AC'')"
    "n_ok ej_params (sec_final ej_params ''AC'')"
    by code_simp+
  from ma have lt: "Min (set (valores ej_params ''4I'')) < min_quality ej_params"
    by simp
  from quality_thresholds_inclusive [OF a, of "''@r1''" "''AC''"] lt
  have ra: "procesar_secuencia ''@r1'' ''AC'' ''4I'' ej_params = None"
    by blast
  from quality_thresholds_inclusive [OF b, of "''@r1''" "''AC''"] mb later
  have rb: "procesar_secuencia ''@r1'' ''AC'' ''5I'' ej_params \<noteq> None"
    by blast
  from a b ma mb ra rb show ?thesis by blast
qed

section \<open>Length bounds\<close>

text \<open>
  Claim C6. For a record that passes the emptiness and quality checks, the length check
  rejects when the trimmed sequence is strictly shorter than \<open>min_length\<close> or strictly
  longer than a non-zero \<open>max_length\<close>; otherwise the record goes on to the ambiguity
  check. When \<open>max_length\<close> is \<open>None\<close> or 0 there is no upper bound: only a sequence
  shorter than \<open>min_length\<close> is rejected by the length check, whatever its length. The
  parameter loader \<open>obtener_parametros\<close> turns a configured 0 into \<open>None\<close>.
\<close>

theorem length_bounds_inclusive:
  assumes "valores p cal \<noteq> []"
    and "min_quality p \<le> Min (set (valores p cal))"
    and "\<not> media (valores p cal) < of_int (min_mean_quality p)"
  shows "(if int (length (sec_final p sec)) < min_length p
             \<or> (\<exists>m. max_length p = Some m \<and> m \<noteq> 0 \<and> m < int (length (sec_final p sec)))
          then procesar_secuencia h sec cal p = None
          else (procesar_secuencia h sec cal p = None \<longleftrightarrow> \<not> n_ok p (sec_final p sec)))
    \<and> (max_length p = None \<or> max_length p = Some 0 \<longrightarrow>
         (procesar_secuencia h sec cal p = None \<longleftrightarrow>
            int (length (sec_final p sec)) < min_length p \<or> \<not> n_ok p (sec_final p sec)))
    \<and> obtener_max_length (Some 0) = None"
  using assms
  by (auto simp: procesar_secuencia_iff le_inf_iff obtener_max_length_def not_less
      simp del: Min_ge_iff set_map)

theorem length_bounds_inclusive_witness:
  "valores ej_longitud ''II'' \<noteq> []
   \<and> min_quality ej_longitud \<le> Min (set (valores ej_longitud ''II''))
   \<and> \<not> media (valores ej_longitud ''II'') < of_int (min_mean_quality ej_longitud)
   \<and> procesar_secuencia ''@r1'' ''AC'' ''II'' ej_longitud \<noteq> None
   \<and> procesar_secuencia ''@r1'' ''A'' ''II'' ej_longitud = None
   \<and> procesar_secuencia ''@r1'' ''ACGT'' ''II'' ej_longitud \<noteq> None
   \<and> procesar_secuencia ''@r1'' ''ACGTA'' ''II'' ej_longitud = None"
proof -
  have h: "valores ej_longitud ''II'' \<noteq> []"
    "min_quality ej_longitud \<le> Min (set (valores ej_longitud ''II''))"
    "\<not> media (valores ej_longitud ''II'') < of_int (min_mean_quality ej_longitud)"
    by code_simp+
  have len: "length (sec_final ej_longitud ''AC'') = 2" "length (sec_final ej_longitud ''A'') = 1"
    "length (sec_final ej_longitud ''ACGT'') = 4" "length (sec_final ej_longitud ''ACGTA'') = 5"
    by code_simp+
  have n: "n_ok ej_longitud (sec_final ej_longitud ''AC'')"
    "n_ok ej_longitud (sec_final ej_longitud ''ACGT'')"
    by code_simp+
  have v: "min_length ej_longitud = 2" "max_length ej_longitud = Some 4"
    by (simp_all add: ej_longitud_def ej_params_def)
  from length_bounds_inclusive [OF h, of "''AC''" "''@r1''"] n(1)
  have r1: "procesar_secuencia ''@r1'' ''AC'' ''II'' ej_longitud \<noteq> None"
    by (simp add: len v)
  from length_bounds_inclusive [OF h, of "''A''" "''@r1''"]
  have r2: "procesar_secuencia ''@r1'' ''A'' ''II'' ej_longitud = None"
    by (simp add: len v)
  from length_bounds_inclusive [OF h, of "''ACGT''" "''@r1''"] n(2)
  have r3: "procesar_secuencia ''@r1'' ''ACGT'' ''II'' ej_longitud \<noteq> None"
    by (simp add: len v)
  from length_bounds_inclusive [OF h, of "''ACGTA''" "''@r1''"]
  have r4: "procesar_secuencia ''@r1'' ''ACGTA'' ''II'' ej_longitud = None"
    by (simp add: len v)
  from h r1 r2 r3 r4 show ?thesis by blast
qed

section \<open>Idempotence on accepted output\<close>

text \<open>
  Claim C4. If a record is accepted under \<open>p\<close>, then the accepted record (trimmed
  sequence, trimmed qualities, same header) is accepted again, with the same serialised
  text, under any \<open>p'\<close> with no adapter, no trimming, and thresholds no stricter than
  those of \<open>p\<close>.
\<close>

theorem filter_idempotent:
  assumes acc: "procesar_secuencia h sec cal p = Some txt"
    and "adaptador p' = []" and "trim_left p' = 0" and "trim_right p' = 0"
    and "min_quality p' \<le> min_quality p"
    and "min_mean_quality p' \<le> min_mean_quality p"
    and "min_length p' \<le> min_length p"
    and "\<forall>m'. max_length_or_inf p' = Some m' \<longrightarrow>
           (\<exists>m. max_length_or_inf p = Some m \<and> m \<le> m')"
    and "max_n p \<le> max_n p'"
  shows "procesar_secuencia h (sec_final p sec) (recortar p cal) p' = Some txt"
proof -
  let ?s = "sec_final p sec" and ?q = "recortar p cal"
  have id: "sec_final p' ?s = ?s" "recortar p' ?q = ?q"
    using assms by (simp_all add: quitar_adaptador_Nil recortar_0)
  from acc have a: "valores p cal \<noteq> []" "\<not> Min (set (valores p cal)) < min_quality p"
    "\<not> media (valores p cal) < of_int (min_mean_quality p)"
    "longitud_ok p ?s" "n_ok p ?s" "txt = serializar h ?s ?q"
    by (auto simp: procesar_secuencia_iff split: if_splits)
  have "le_inf (int (length ?s)) (max_length_or_inf p')"
    using a(4) assms(8) by (cases "max_length_or_inf p'") (auto simp: le_inf_def)
  moreover have "\<not> media (valores p cal) < of_int (min_mean_quality p')"
  proof -
    have "(of_int (min_mean_quality p') :: rat) \<le> of_int (min_mean_quality p)"
      using assms(6) by simp
    with a(3) show ?thesis by linarith
  qed
  ultimately show ?thesis
    using a assms(5,7,9) by (simp add: procesar_secuencia_iff id)
qed

theorem filter_idempotent_witness:
  "procesar_secuencia ''@r1'' ''ACGGTT'' ''IIIIII'' ej_recorte
     = Some (serializar ''@r1'' ''GT'' ''IIII'')
   \<and> adaptador ej_laxo = [] \<and> trim_left ej_laxo = 0 \<and> trim_right ej_laxo = 0
   \<and> min_quality ej_laxo \<le> min_quality ej_recorte
   \<and> min_mean_quality ej_laxo \<le> min_mean_quality ej_recorte
   \<and> min_length ej_laxo \<le> min_length ej_recorte
   \<and> max_length_or_inf ej_laxo = None
   \<and> max_n ej_recorte \<le> max_n ej_laxo
   \<and> procesar_secuencia ''@r1'' (sec_final ej_recorte ''ACGGTT'') (recortar ej_recorte ''IIIIII'')
        ej_laxo
       = Some (serializar ''@r1'' ''GT'' ''IIII'')"
proof -
  have acc: "procesar_secuencia ''@r1'' ''ACGGTT'' ''IIIIII'' ej_recorte
       = Some (serializar ''@r1'' ''GT'' ''IIII'')"
    by code_simp
  have h: "adaptador ej_laxo = []" "trim_left ej_laxo = 0" "trim_right ej_laxo = 0"
    "min_quality ej_laxo \<le> min_quality ej_recorte"
    "min_mean_quality ej_laxo \<le> min_mean_quality ej_recorte"
    "min_length ej_laxo \<le> min_length ej_recorte"
    "max_n ej_recorte \<le> max_n ej_laxo"
    by (simp_all add: ej_laxo_def ej_recorte_def ej_params_def)
  have inf: "max_length_or_inf ej_laxo = None"
    by (simp add: max_length_or_inf_def ej_laxo_def ej_params_def)
  then have ub: "\<forall>m'. max_length_or_inf ej_laxo = Some m' \<longrightarrow>
           (\<exists>m. max_length_or_inf ej_recorte = Some m \<and> m \<le> m')"
    by simp
  from filter_idempotent [OF acc h(1) h(2) h(3) h(4) h(5) h(6) ub h(7)] acc h inf
  show ?thesis by blast
qed

section \<open>Empty sequence after adapter removal\<close>

text \<open>
  Claim C10, as stated, fails: with non-empty trimmed qualities, an empty trimmed sequence,
  both quality thresholds passed, \<open>min_length = 0\<close> and \<open>max_n \<ge> 0\<close>, a negative
  \<open>max_length\<close> still rejects the record at the length check.
\<close>

theorem empty_sequence_counterexample:
  "recortar ej_negativo ''II'' \<noteq> []
   \<and> sec_final ej_negativo ''AC'' = []
   \<and> min_quality ej_negativo \<le> Min (set (valores ej_negativo ''II''))
   \<and> \<not> media (valores ej_negativo ''II'') < of_int (min_mean_quality ej_negativo)
   \<and> min_length ej_negativo = 0
   \<and> 0 \<le> max_n ej_negativo
   \<and> procesar_secuencia ''@r1'' ''AC'' ''II'' ej_negativo = None"
  by code_simp

text \<open>
  Claim C10, amended. The emptiness check looks at the trimmed qualities only: a record
  with non-empty trimmed qualities and an empty trimmed sequence is accepted whenever both
  quality thresholds pass, \<open>min_length = 0\<close>, \<open>max_n \<ge> 0\<close> and \<open>max_length\<close> is absent or
  not negative; the accepted text has four lines, the sequence line being empty.
\<close>

theorem empty_sequence_accepted:
  assumes "recortar p cal \<noteq> []" and "sec_final p sec = []"
    and "min_quality p \<le> Min (set (valores p cal))"
    and "\<not> media (valores p cal) < of_int (min_mean_quality p)"
    and "min_length p = 0" and "0 \<le> max_n p"
    and "max_length p = None \<or> (\<exists>m. max_length p = Some m \<and> 0 \<le> m)"
  shows "procesar_secuencia h sec cal p
           = Some (h @ [nl] @ [] @ [nl] @ ''+'' @ [nl] @ recortar p cal @ [nl])"
  using assms
  by (auto simp: procesar_secuencia_iff le_inf_iff serializar_def not_less
      simp del: Min_ge_iff set_map)

theorem empty_sequence_accepted_witness:
  "recortar ej_adaptador ''II'' \<noteq> []
   \<and> sec_final ej_adaptador ''AC'' = []
   \<and> min_quality ej_adaptador \<le> Min (set (valores ej_adaptador ''II''))
   \<and> \<not> media (valores ej_adaptador ''II'') < of_int (min_mean_quality ej_adaptador)
   \<and> min_length ej_adaptador = 0
   \<and> 0 \<le> max_n ej_adaptador
   \<and> max_length ej_adaptador = None
   \<and> procesar_secuencia ''@r1'' ''AC'' ''II'' ej_adaptador
       = Some (''@r1'' @ [nl] @ [] @ [nl] @ ''+'' @ [nl] @ recortar ej_adaptador ''II'' @ [nl])"
proof -
  have h: "recortar ej_adaptador ''II'' \<noteq> []" "sec_final ej_adaptador ''AC'' = []"
    "min_quality ej_adaptador \<le> Min (set (valores ej_adaptador ''II''))"
    "\<not> media (valores ej_adaptador ''II'') < of_int (min_mean_quality ej_adaptador)"
    by code_simp+
  have v: "min_length ej_adaptador = 0" "0 \<le> max_n ej_adaptador"
    "max_length ej_adaptador = None"
    by (simp_all add: ej_adaptador_def ej_params_def)
  from empty_sequence_accepted [OF h v(1) v(2) disjI1 [OF v(3)], of "''@r1''"] h v
  show ?thesis by blast
qed


section \<open>The loop of the file processor\<close>

lemma paso_total: "total_v (paso p e r) = Suc (total_v e)"
  by (cases r) (simp add: paso_def Let_def split: option.splits)

lemma paso_conservadas:
  "conservadas_v (paso p e r) \<le> Suc (conservadas_v e) \<and> conservadas_v e \<le> conservadas_v (paso p e r)"
  by (cases r) (simp add: paso_def Let_def split: option.splits)

lemma foldl_paso_total: "total_v (foldl (paso p) e rs) = total_v e + length rs"
  by (induction rs arbitrary: e) (simp_all add: paso_total)

lemma foldl_paso_conservadas:
  "conservadas_v e \<le> total_v e \<Longrightarrow>
   conservadas_v (foldl (paso p) e rs) \<le> total_v (foldl (paso p) e rs)"
proof (induction rs arbitrary: e)
  case Nil
  then show ?case by simp
next
  case (Cons r rs)
  have "conservadas_v (paso p e r) \<le> total_v (paso p e r)"
    using Cons.prems paso_conservadas [of p e r] by (simp add: paso_total)
  then show ?case
    using Cons.IH by simp
qed

lemma serializar_not_Nil: "serializar h s q \<noteq> []"
  by (simp add: serializar_def)

lemma procesar_secuencia_not_Nil: "procesar_secuencia h s q p \<noteq> Some []"
  using procesar_secuencia_Some [of h s q p "[]"] serializar_not_Nil by metis

text \<open>One step, when the record is handed to the filter chain.\<close>

lemma paso_evaluado:
  assumes "\<not> (remove_duplicates p \<and> raw_seq r \<in> secuencias_vistas e)"
  shows "evaluadas (paso p e r) = evaluadas e @ [r]"
    and "secuencias_vistas (paso p e r)
           = (if remove_duplicates p then insert (raw_seq r) (secuencias_vistas e)
              else secuencias_vistas e)"
    and "conservadas_v (paso p e r) = conservadas_v e + (if aceptado p r then 1 else 0)"
  using assms procesar_secuencia_not_Nil
  by (cases r; auto simp: paso_def Let_def split: option.splits)+

text \<open>One step, when the record is a repeat.\<close>

lemma paso_omitido:
  assumes "remove_duplicates p" and "raw_seq r \<in> secuencias_vistas e"
  shows "paso p e r = e\<lparr>total_v := Suc (total_v e)\<rparr>"
  using assms by (cases r) (simp add: paso_def Let_def)

lemma foldl_paso_sin_dedup:
  assumes "\<not> remove_duplicates p"
  shows "evaluadas (foldl (paso p) e rs) = evaluadas e @ rs"
  using assms by (induction rs arbitrary: e) (simp_all add: paso_evaluado)

lemma foldl_paso_count:
  "conservadas_v (foldl (paso p) e rs) - conservadas_v e
     = length (filter (aceptado p) (evaluadas (foldl (paso p) e rs)))
       - length (filter (aceptado p) (evaluadas e))
   \<and> conservadas_v e \<le> conservadas_v (foldl (paso p) e rs)
   \<and> length (filter (aceptado p) (evaluadas e))
       \<le> length (filter (aceptado p) (evaluadas (foldl (paso p) e rs)))"
proof (induction rs arbitrary: e)
  case Nil
  then show ?case by simp
next
  case (Cons r rs)
  let ?e = "paso p e r"
  have step: "conservadas_v ?e - conservadas_v e
                = length (filter (aceptado p) (evaluadas ?e)) - length (filter (aceptado p) (evaluadas e))
              \<and> conservadas_v e \<le> conservadas_v ?e
              \<and> length (filter (aceptado p) (evaluadas e)) \<le> length (filter (aceptado p) (evaluadas ?e))"
  proof (cases "remove_duplicates p \<and> raw_seq r \<in> secuencias_vistas e")
    case True
    then show ?thesis by (simp add: paso_omitido)
  next
    case False
    then show ?thesis by (simp add: paso_evaluado)
  qed
  from Cons.IH [of ?e] step show ?case
    by simp linarith
qed

lemma foldl_paso_dedup:
  assumes "remove_duplicates p" and "inv_dedup e"
  shows "inv_dedup (foldl (paso p) e rs)
       \<and> set (map raw_seq (evaluadas (foldl (paso p) e rs)))
           = set (map raw_seq (evaluadas e)) \<union> set (map raw_seq rs)
       \<and> (\<exists>ys. evaluadas (foldl (paso p) e rs) = evaluadas e @ ys \<and> subseq ys rs)"
  using assms(2)
proof (induction rs arbitrary: e)
  case Nil
  then show ?case by simp
next
  case (Cons r rs)
  let ?e = "paso p e r"
  show ?case
  proof (cases "raw_seq r \<in> secuencias_vistas e")
    case True
    then have e: "paso p e r = e\<lparr>total_v := Suc (total_v e)\<rparr>"
      using assms(1) by (simp add: paso_omitido)
    then have inv: "inv_dedup ?e"
      using Cons.prems by (simp add: inv_dedup_def)
    from Cons.IH [OF inv] obtain ys where
      a: "inv_dedup (foldl (paso p) ?e rs)"
      and b: "set (map raw_seq (evaluadas (foldl (paso p) ?e rs)))
           = set (map raw_seq (evaluadas ?e)) \<union> set (map raw_seq rs)"
      and c: "evaluadas (foldl (paso p) ?e rs) = evaluadas ?e @ ys" "subseq ys rs"
      by blast
    have "raw_seq r \<in> set (map raw_seq (evaluadas e))"
      using True Cons.prems by (simp add: inv_dedup_def)
    with b e have "set (map raw_seq (evaluadas (foldl (paso p) ?e rs)))
           = set (map raw_seq (evaluadas e)) \<union> set (map raw_seq (r # rs))"
      by auto
    moreover have "evaluadas (foldl (paso p) ?e rs) = evaluadas e @ ys" "subseq ys (r # rs)"
      using c e by (simp_all add: list_emb_Cons)
    ultimately show ?thesis using a by auto
  next
    case False
    then have ev: "evaluadas ?e = evaluadas e @ [r]"
      and sv: "secuencias_vistas ?e = insert (raw_seq r) (secuencias_vistas e)"
      using assms(1) by (simp_all add: paso_evaluado)
    have inv: "inv_dedup ?e"
      using Cons.prems False by (simp add: inv_dedup_def ev sv)
    from Cons.IH [OF inv] obtain ys where
      a: "inv_dedup (foldl (paso p) ?e rs)"
      and b: "set (map raw_seq (evaluadas (foldl (paso p) ?e rs)))
           = set (map raw_seq (evaluadas ?e)) \<union> set (map raw_seq rs)"
      and c: "evaluadas (foldl (paso p) ?e rs) = evaluadas ?e @ ys" "subseq ys rs"
      by blast
    have "set (map raw_seq (evaluadas (foldl (paso p) ?e rs)))
           = set (map raw_seq (evaluadas e)) \<union> set (map raw_seq (r # rs))"
      using b ev by auto
    moreover have "evaluadas (foldl (paso p) ?e rs) = evaluadas e @ (r # ys)" "subseq (r # ys) (r # rs)"
      using c ev by simp_all
    ultimately show ?thesis using a by auto
  qed
qed

lemma distinct_map_filter_one:
  "distinct (map f xs) \<Longrightarrow> x \<in> set xs \<Longrightarrow> length (filter (\<lambda>y. f y = f x) xs) = 1"
proof (induction xs)
  case Nil
  then show ?case by simp
next
  case (Cons a xs)
  show ?case
  proof (cases "f a = f x")
    case True
    have "f a \<notin> f ` set xs"
      using Cons.prems(1) by simp
    then have "\<forall>y \<in> set xs. f y \<noteq> f a"
      by (metis image_eqI)
    with True have "\<forall>y \<in> set xs. f y \<noteq> f x"
      by simp
    then have "filter (\<lambda>y. f y = f x) xs = []"
      by (simp add: filter_empty_conv)
    with True show ?thesis by simp
  next
    case False
    then have "x \<in> set xs" using Cons.prems(2) by auto
    with Cons False show ?thesis by simp
  qed
qed


lemma foldl_paso_vistas:
  assumes "remove_duplicates p"
  shows "secuencias_vistas (foldl (paso p) e rs) = secuencias_vistas e \<union> raw_seq ` set rs"
proof (induction rs arbitrary: e)
  case Nil
  then show ?case by simp
next
  case (Cons r rs)
  show ?case
  proof (cases "raw_seq r \<in> secuencias_vistas e")
    case True
    then show ?thesis
      using assms Cons.IH [of "paso p e r"] by (auto simp: paso_omitido)
  next
    case False
    then show ?thesis
      using assms Cons.IH [of "paso p e r"] by (auto simp: paso_evaluado)
  qed
qed

text \<open>With duplicates removed, the loop evaluates the records that \<open>sin_repetidos\<close>
  keeps, among those whose raw sequence is not in the starting set.\<close>

lemma foldl_paso_primeras:
  assumes "remove_duplicates p"
  shows "evaluadas (foldl (paso p) e rs)
           = evaluadas e @ sin_repetidos (filter (\<lambda>x. raw_seq x \<notin> secuencias_vistas e) rs)"
proof (induction rs arbitrary: e)
  case Nil
  then show ?case by simp
next
  case (Cons r rs)
  show ?case
  proof (cases "raw_seq r \<in> secuencias_vistas e")
    case True
    then show ?thesis
      using assms Cons.IH [of "paso p e r"] by (simp add: paso_omitido)
  next
    case False
    have "filter (\<lambda>x. raw_seq x \<notin> insert (raw_seq r) (secuencias_vistas e)) rs
            = filter (\<lambda>x. raw_seq x \<noteq> raw_seq r)
                (filter (\<lambda>x. raw_seq x \<notin> secuencias_vistas e) rs)"
      by (auto intro: filter_cong)
    with False show ?thesis
      using assms Cons.IH [of "paso p e r"] by (simp add: paso_evaluado)
  qed
qed

lemma paso_out:
  "out e = concat (map (texto p) (evaluadas e)) \<Longrightarrow>
   out (paso p e r) = concat (map (texto p) (evaluadas (paso p e r)))"
  using procesar_secuencia_not_Nil
  by (cases r) (auto simp: paso_def Let_def split: option.splits)

lemma foldl_paso_out:
  "out e = concat (map (texto p) (evaluadas e)) \<Longrightarrow>
   out (foldl (paso p) e rs) = concat (map (texto p) (evaluadas (foldl (paso p) e rs)))"
  by (induction rs arbitrary: e) (simp_all add: paso_out)

lemma bucle_snoc: "bucle p (rs @ [r]) = paso p (bucle p rs) r"
  by (simp add: bucle_def)

section \<open>Keep percentage\<close>

text \<open>
  Claim C9. The percentage returned by \<open>procesar_archivo\<close> is
  \<open>conservadas / total * 100\<close> when \<open>total > 0\<close> and 0 when \<open>total = 0\<close>; the number of
  kept records never exceeds the number of records read, so the percentage lies between 0
  and 100.
\<close>

theorem keep_percentage:
  "conservadas_r (fst (procesar_archivo nombre lineas p))
     \<le> total_r (fst (procesar_archivo nombre lineas p))
   \<and> (0 < total_r (fst (procesar_archivo nombre lineas p)) \<longrightarrow>
        porcentaje (fst (procesar_archivo nombre lineas p))
          = of_nat (conservadas_r (fst (procesar_archivo nombre lineas p)))
              / of_nat (total_r (fst (procesar_archivo nombre lineas p))) * 100)
   \<and> (total_r (fst (procesar_archivo nombre lineas p)) = 0 \<longrightarrow>
        porcentaje (fst (procesar_archivo nombre lineas p)) = 0)
   \<and> 0 \<le> porcentaje (fst (procesar_archivo nombre lineas p))
   \<and> porcentaje (fst (procesar_archivo nombre lineas p)) \<le> 100"
proof -
  let ?e = "bucle p (leer_fastq lineas)"
  let ?c = "conservadas_v ?e" and ?t = "total_v ?e"
  have le: "?c \<le> ?t"
    unfolding bucle_def by (rule foldl_paso_conservadas) (simp add: inicial_def)
  have r: "fst (procesar_archivo nombre lineas p)
             = \<lparr>archivo = nombre, total_r = ?t, conservadas_r = ?c,
                porcentaje = (if ?t > 0 then (of_nat ?c / of_nat ?t) * 100 else 0)\<rparr>"
    by (simp add: procesar_archivo_def Let_def)
  let ?pct = "porcentaje (fst (procesar_archivo nombre lineas p))"
  have tot: "total_r (fst (procesar_archivo nombre lineas p)) = ?t"
    and con: "conservadas_r (fst (procesar_archivo nombre lineas p)) = ?c"
    and pct: "?pct = (if ?t > 0 then (of_nat ?c / of_nat ?t) * 100 else 0)"
    by (simp_all add: r)
  have bounds: "0 \<le> ?pct \<and> ?pct \<le> 100"
  proof (cases "0 < ?t")
    case True
    have frac: "(of_nat ?c :: rat) / of_nat ?t \<le> 1"
      using le True by (simp add: divide_le_eq_1)
    have "(of_nat ?c :: rat) / of_nat ?t * 100 \<le> 1 * 100"
      using frac by (rule mult_right_mono) simp
    moreover have "0 \<le> (of_nat ?c :: rat) / of_nat ?t * 100"
      by simp
    ultimately show ?thesis
      using True by (simp only: pct if_True) simp
  next
    case False
    then show ?thesis by (simp add: pct)
  qed
  have pos: "0 < ?t \<longrightarrow> ?pct = of_nat ?c / of_nat ?t * 100"
    and zero: "?t = 0 \<longrightarrow> ?pct = 0"
    by (simp_all add: pct)
  from le pos zero bounds show ?thesis
    unfolding tot con by blast
qed

theorem keep_percentage_witness:
  "0 < total_r (fst (procesar_archivo ''a.fastq'' ej_lineas ej_params))
   \<and> porcentaje (fst (procesar_archivo ''a.fastq'' ej_lineas ej_params)) = 1 / 2 * 100
   \<and> total_r (fst (procesar_archivo ''a.fastq'' [] ej_params)) = 0
   \<and> porcentaje (fst (procesar_archivo ''a.fastq'' [] ej_params)) = 0"
proof -
  have a: "total_r (fst (procesar_archivo ''a.fastq'' ej_lineas ej_params)) = 2"
    "conservadas_r (fst (procesar_archivo ''a.fastq'' ej_lineas ej_params)) = 1"
    by code_simp+
  have b: "total_r (fst (procesar_archivo ''a.fastq'' [] ej_params)) = 0"
    by code_simp
  from keep_percentage [of "''a.fastq''" ej_lineas ej_params] a
  have pa: "porcentaje (fst (procesar_archivo ''a.fastq'' ej_lineas ej_params)) = 1 / 2 * 100"
    by simp
  from keep_percentage [of "''a.fastq''" "[]" ej_params] b
  have pb: "porcentaje (fst (procesar_archivo ''a.fastq'' [] ej_params)) = 0"
    by blast
  from a b pa pb show ?thesis by simp
qed

section \<open>Deduplication\<close>

text \<open>
  Claim C3. Every record read increments the total. With \<open>remove_duplicates\<close>, the test
  is on the raw sequence as read: after the records \<open>rs\<close> the set of seen sequences is the
  set of all their raw sequences, whatever the filter chain answered; the next record is
  handed to the filter chain exactly when its raw sequence is not among them; so the
  records evaluated are the first occurrences, every later record with the same raw
  sequence being dropped beforehand, and each raw sequence of the file is evaluated once.
  Without \<open>remove_duplicates\<close> every record is evaluated. In both cases the kept records
  are the evaluated records that the filter chain accepts, and the output text is made of
  their serialisations.
\<close>

theorem deduplication:
  "total_v (bucle p rs) = length rs
   \<and> (remove_duplicates p \<longrightarrow>
        evaluadas (bucle p rs) = sin_repetidos rs
        \<and> secuencias_vistas (bucle p rs) = raw_seq ` set rs
        \<and> (\<forall>r. evaluadas (bucle p (rs @ [r]))
                 = evaluadas (bucle p rs) @ (if raw_seq r \<in> raw_seq ` set rs then [] else [r]))
        \<and> subseq (evaluadas (bucle p rs)) rs
        \<and> (\<forall>r \<in> set rs.
             length (filter (\<lambda>x. raw_seq x = raw_seq r) (evaluadas (bucle p rs))) = 1))
   \<and> (\<not> remove_duplicates p \<longrightarrow> evaluadas (bucle p rs) = rs)
   \<and> conservadas_v (bucle p rs) = length (filter (aceptado p) (evaluadas (bucle p rs)))
   \<and> out (bucle p rs) = concat (map (texto p) (evaluadas (bucle p rs)))"
proof -
  have total: "total_v (bucle p rs) = length rs"
    by (simp add: bucle_def foldl_paso_total inicial_def)
  have kept: "conservadas_v (bucle p rs) = length (filter (aceptado p) (evaluadas (bucle p rs)))"
    using foldl_paso_count [of p inicial rs] by (simp add: bucle_def inicial_def)
  have written: "out (bucle p rs) = concat (map (texto p) (evaluadas (bucle p rs)))"
    unfolding bucle_def by (rule foldl_paso_out) (simp add: inicial_def)
  have nodedup: "evaluadas (bucle p rs) = rs" if "\<not> remove_duplicates p"
    using foldl_paso_sin_dedup [OF that, of inicial rs] by (simp add: bucle_def inicial_def)
  have first: "evaluadas (bucle p rs) = sin_repetidos rs" if rd: "remove_duplicates p"
    using foldl_paso_primeras [OF rd, of inicial rs] by (simp add: bucle_def inicial_def)
  have seen: "secuencias_vistas (bucle p rs) = raw_seq ` set rs" if rd: "remove_duplicates p"
    using foldl_paso_vistas [OF rd, of inicial rs] by (simp add: bucle_def inicial_def)
  have step: "evaluadas (bucle p (rs @ [r]))
                 = evaluadas (bucle p rs) @ (if raw_seq r \<in> raw_seq ` set rs then [] else [r])"
    if rd: "remove_duplicates p" for r
  proof (cases "raw_seq r \<in> raw_seq ` set rs")
    case True
    then have "raw_seq r \<in> secuencias_vistas (bucle p rs)"
      using seen [OF rd] by simp
    from paso_omitido [OF rd this] True show ?thesis
      by (simp add: bucle_snoc)
  next
    case False
    then have "\<not> (remove_duplicates p \<and> raw_seq r \<in> secuencias_vistas (bucle p rs))"
      using seen [OF rd] by simp
    from paso_evaluado(1) [OF this] False show ?thesis
      by (simp add: bucle_snoc)
  qed
  have dedup: "subseq (evaluadas (bucle p rs)) rs
        \<and> (\<forall>r \<in> set rs.
             length (filter (\<lambda>x. raw_seq x = raw_seq r) (evaluadas (bucle p rs))) = 1)"
    if rd: "remove_duplicates p"
  proof -
    have inv0: "inv_dedup inicial"
      by (simp add: inv_dedup_def inicial_def)
    from foldl_paso_dedup [OF rd inv0, of rs]
    have inv: "inv_dedup (bucle p rs)"
      and seqs: "set (map raw_seq (evaluadas (bucle p rs))) = set (map raw_seq rs)"
      and sub: "subseq (evaluadas (bucle p rs)) rs"
      by (auto simp: bucle_def inicial_def)
    have "length (filter (\<lambda>x. raw_seq x = raw_seq r) (evaluadas (bucle p rs))) = 1"
      if "r \<in> set rs" for r
    proof -
      from that seqs have "raw_seq r \<in> set (map raw_seq (evaluadas (bucle p rs)))"
        by simp
      then obtain x where x: "x \<in> set (evaluadas (bucle p rs))" "raw_seq x = raw_seq r"
        by auto
      from inv have "distinct (map raw_seq (evaluadas (bucle p rs)))"
        by (simp add: inv_dedup_def)
      from distinct_map_filter_one [OF this x(1)] x(2) show ?thesis
        by simp
    qed
    with sub show ?thesis by blast
  qed
  from total kept written nodedup first seen step dedup show ?thesis by blast
qed

theorem deduplication_witness:
  "remove_duplicates ej_params
   \<and> total_v (bucle ej_params ej_registros) = 2
   \<and> sin_repetidos ej_registros = [(''@r1'', ''ACGT'', ''####'')]
   \<and> evaluadas (bucle ej_params ej_registros) = [(''@r1'', ''ACGT'', ''####'')]
   \<and> conservadas_v (bucle ej_params ej_registros) = 0
   \<and> out (bucle ej_params ej_registros) = []
   \<and> \<not> remove_duplicates ej_sin_dedup
   \<and> total_v (bucle ej_sin_dedup ej_registros) = 2
   \<and> evaluadas (bucle ej_sin_dedup ej_registros) = ej_registros
   \<and> conservadas_v (bucle ej_sin_dedup ej_registros) = 1"
proof -
  have rd: "remove_duplicates ej_params" "\<not> remove_duplicates ej_sin_dedup"
    by (simp_all add: ej_params_def ej_sin_dedup_def)
  have sr: "sin_repetidos ej_registros = [(''@r1'', ''ACGT'', ''####'')]"
    by code_simp
  have acc: "filter (aceptado ej_params) [(''@r1'', ''ACGT'', ''####'')] = []"
    "filter (aceptado ej_sin_dedup) ej_registros = [(''@r2'', ''ACGT'', ''IIII'')]"
    "concat (map (texto ej_params) [(''@r1'', ''ACGT'', ''####'')]) = []"
    by code_simp+
  have len: "length ej_registros = 2"
    by (simp add: ej_registros_def)
  from deduplication [of ej_params ej_registros] rd(1) sr
  have ev: "evaluadas (bucle ej_params ej_registros) = [(''@r1'', ''ACGT'', ''####'')]"
    by simp
  from deduplication [of ej_params ej_registros] ev acc(1,3) len
  have a: "total_v (bucle ej_params ej_registros) = 2"
    "conservadas_v (bucle ej_params ej_registros) = 0"
    "out (bucle ej_params ej_registros) = []"
    by simp_all
  from deduplication [of ej_sin_dedup ej_registros] rd(2) acc(2) len
  have b: "total_v (bucle ej_sin_dedup ej_registros) = 2"
    "evaluadas (bucle ej_sin_dedup ej_registros) = ej_registros"
    "conservadas_v (bucle ej_sin_dedup ej_registros) = 1"
    by simp_all
  from rd sr ev a b show ?thesis by blast
qed


section \<open>Record reader\<close>

lemma strip_Nil [simp]: "strip [] = []"
  by (simp add: strip_def)

lemma leer_fastq_Nil [simp]: "leer_fastq [] = []"
  by (simp add: leer_fastq.simps readline_def)

lemma leer_fastq_blank: "strip l = [] \<Longrightarrow> leer_fastq (l # ls) = []"
  by (simp add: leer_fastq.simps [of "l # ls"] readline_def)

text \<open>A complete group of four lines gives one record, and reading goes on.\<close>

lemma leer_fastq_group:
  "strip l1 \<noteq> [] \<Longrightarrow>
   leer_fastq (l1 # l2 # l3 # l4 # ls) = (strip l1, strip l2, strip l4) # leer_fastq ls"
  by (simp add: leer_fastq.simps [of "l1 # l2 # l3 # l4 # ls"] readline_def Let_def)

text \<open>A last group of one, two or three lines gives one record with empty qualities.\<close>

lemma leer_fastq_tail:
  assumes "cola \<noteq> []" and "length cola < 4" and "strip (hd cola) \<noteq> []"
  shows "leer_fastq cola = [(strip (hd cola), strip (fst (readline (tl cola))), [])]"
proof -
  from assms(1,2) consider
      (one) l1 where "cola = [l1]"
    | (two) l1 l2 where "cola = [l1, l2]"
    | (three) l1 l2 l3 where "cola = [l1, l2, l3]"
    by (cases cola; cases "tl cola"; cases "tl (tl cola)"; cases "tl (tl (tl cola))") auto
  then show ?thesis
  proof cases
    case one
    with assms(3) show ?thesis
      by (simp add: leer_fastq.simps [of "[l1]"] readline_def Let_def)
  next
    case two
    with assms(3) show ?thesis
      by (simp add: leer_fastq.simps [of "[l1, l2]"] readline_def Let_def)
  next
    case three
    with assms(3) show ?thesis
      by (simp add: leer_fastq.simps [of "[l1, l2, l3]"] readline_def Let_def)
  qed
qed

lemma leer_fastq_groups:
  assumes "\<forall>g \<in> set gs. length g = 4 \<and> strip (hd g) \<noteq> []"
  shows "leer_fastq (concat gs @ cola)
           = map (\<lambda>g. (strip (g ! 0), strip (g ! 1), strip (g ! 3))) gs @ leer_fastq cola"
  using assms
proof (induction gs)
  case Nil
  then show ?case by simp
next
  case (Cons g gs)
  from Cons.prems have "length g = 4" and h: "strip (hd g) \<noteq> []"
    by simp_all
  then obtain l1 l2 l3 l4 where g: "g = [l1, l2, l3, l4]"
    by (cases g; cases "tl g"; cases "tl (tl g)"; cases "tl (tl (tl g))") auto
  from Cons.IH Cons.prems
  have "leer_fastq (concat gs @ cola)
          = map (\<lambda>g. (strip (g ! 0), strip (g ! 1), strip (g ! 3))) gs @ leer_fastq cola"
    by simp
  with h g show ?case
    by (simp add: leer_fastq_group)
qed

lemma recortar_Nil [simp]: "recortar p [] = []"
  by (simp add: recortar_def slice_from_def slice_to_def)

lemma procesar_secuencia_sin_calidades: "procesar_secuencia h s [] p = None"
  by (simp add: procesar_secuencia_def)

text \<open>
  Claim C1, as stated, fails: from a file of two lines, a header and a sequence, the reader
  yields the partial record, with an empty quality string, so that the sequence and the
  qualities differ in length.
\<close>

theorem reader_partial_record_counterexample:
  "length ej_truncado mod 4 \<noteq> 0
   \<and> leer_fastq ej_truncado = [(''@r1'', ''ACGT'', [])]
   \<and> length ''ACGT'' \<noteq> length ([] :: string)"
  by code_simp

lemma paso_sin_calidades:
  "out (paso p e (h, s, [])) = out e
   \<and> conservadas_v (paso p e (h, s, [])) = conservadas_v e
   \<and> total_v (paso p e (h, s, [])) = Suc (total_v e)"
  by (simp add: paso_def Let_def procesar_secuencia_sin_calidades)

text \<open>
  Claim C1, amended. The reader takes the file in groups of four lines and stops at the
  first group whose header line is blank or missing; each group read is yielded as the
  stripped header, sequence and quality lines, whatever their lengths. When the file is
  made of complete groups with non-blank headers followed by one to three more lines, the
  first of them non-blank, this truncated last record is yielded too, with an empty quality
  string (lines missing at the end of the file read as empty strings). It is never written:
  the filter chain rejects every record whose quality string is empty, under every
  parameter set, so that \<open>procesar_archivo\<close> writes the same text and keeps the same number
  of records as for the file without these last lines, and counts one record more.
\<close>

theorem reader_truncated_record:
  assumes "\<forall>g \<in> set gs. length g = 4 \<and> strip (hd g) \<noteq> []"
    and "cola \<noteq> []" and "length cola < 4" and "strip (hd cola) \<noteq> []"
  shows "leer_fastq (concat gs @ cola)
           = map (\<lambda>g. (strip (g ! 0), strip (g ! 1), strip (g ! 3))) gs
             @ [(strip (hd cola), strip (fst (readline (tl cola))), [])]
       \<and> leer_fastq (concat gs) = map (\<lambda>g. (strip (g ! 0), strip (g ! 1), strip (g ! 3))) gs
       \<and> (\<forall>l rest. strip l = [] \<longrightarrow>
             leer_fastq (concat gs @ l # rest)
               = map (\<lambda>g. (strip (g ! 0), strip (g ! 1), strip (g ! 3))) gs)
       \<and> (\<forall>h s p. procesar_secuencia h s [] p = None)
       \<and> (\<forall>nombre p.
             snd (procesar_archivo nombre (concat gs @ cola) p)
               = snd (procesar_archivo nombre (concat gs) p)
           \<and> conservadas_r (fst (procesar_archivo nombre (concat gs @ cola) p))
               = conservadas_r (fst (procesar_archivo nombre (concat gs) p))
           \<and> total_r (fst (procesar_archivo nombre (concat gs @ cola) p))
               = Suc (total_r (fst (procesar_archivo nombre (concat gs) p))))"
proof -
  let ?f = "\<lambda>g. (strip (g ! 0), strip (g ! 1), strip (g ! 3))"
  let ?t = "(strip (hd cola), strip (fst (readline (tl cola))), [] :: string)"
  have complete: "leer_fastq (concat gs) = map ?f gs"
    using leer_fastq_groups [OF assms(1), of "[]"] by simp
  have all: "leer_fastq (concat gs @ cola) = map ?f gs @ [?t]"
    using leer_fastq_groups [OF assms(1), of cola] leer_fastq_tail [OF assms(2,3,4)] by simp
  have blank: "leer_fastq (concat gs @ l # rest) = map ?f gs" if "strip l = []" for l rest
    using leer_fastq_groups [OF assms(1), of "l # rest"] leer_fastq_blank [OF that, of rest]
    by simp
  have snoc: "bucle p (leer_fastq (concat gs @ cola)) = paso p (bucle p (leer_fastq (concat gs))) ?t"
    for p
    by (simp add: all complete bucle_snoc)
  have archivo_igual: "snd (procesar_archivo nombre (concat gs @ cola) p)
               = snd (procesar_archivo nombre (concat gs) p)
           \<and> conservadas_r (fst (procesar_archivo nombre (concat gs @ cola) p))
               = conservadas_r (fst (procesar_archivo nombre (concat gs) p))
           \<and> total_r (fst (procesar_archivo nombre (concat gs @ cola) p))
               = Suc (total_r (fst (procesar_archivo nombre (concat gs) p)))"
    for nombre p
    using paso_sin_calidades [of p "bucle p (leer_fastq (concat gs))"
        "strip (hd cola)" "strip (fst (readline (tl cola)))"]
    by (simp add: procesar_archivo_def Let_def snoc)
  from all complete blank procesar_secuencia_sin_calidades archivo_igual show ?thesis
    by blast
qed

theorem reader_truncated_record_witness:
  "length ej_grupo = 4 \<and> strip (hd ej_grupo) \<noteq> []
   \<and> ej_truncado \<noteq> [] \<and> length ej_truncado < 4 \<and> strip (hd ej_truncado) \<noteq> []
   \<and> leer_fastq (ej_grupo @ ej_truncado)
       = [(''@r0'', ''AC'', ''II''), (''@r1'', ''ACGT'', [])]
   \<and> procesar_secuencia ''@r1'' ''ACGT'' [] ej_params = None
   \<and> snd (procesar_archivo ''a.fastq'' (ej_grupo @ ej_truncado) ej_params)
       = serializar ''@r0'' ''AC'' ''II''
   \<and> total_r (fst (procesar_archivo ''a.fastq'' (ej_grupo @ ej_truncado) ej_params)) = 2
   \<and> conservadas_r (fst (procesar_archivo ''a.fastq'' (ej_grupo @ ej_truncado) ej_params)) = 1"
proof -
  have g: "length ej_grupo = 4" "strip (hd ej_grupo) \<noteq> []"
    by code_simp+
  then have gs: "\<forall>g \<in> set [ej_grupo]. length g = 4 \<and> strip (hd g) \<noteq> []"
    by simp
  have c: "ej_truncado \<noteq> []" "length ej_truncado < 4" "strip (hd ej_truncado) \<noteq> []"
    by code_simp+
  have v: "strip (ej_grupo ! 0) = ''@r0''" "strip (ej_grupo ! 1) = ''AC''"
    "strip (ej_grupo ! 3) = ''II''"
    "strip (hd ej_truncado) = ''@r1''" "strip (fst (readline (tl ej_truncado))) = ''ACGT''"
    by code_simp+
  have base: "snd (procesar_archivo ''a.fastq'' ej_grupo ej_params) = serializar ''@r0'' ''AC'' ''II''"
    "total_r (fst (procesar_archivo ''a.fastq'' ej_grupo ej_params)) = 1"
    "conservadas_r (fst (procesar_archivo ''a.fastq'' ej_grupo ej_params)) = 1"
    by code_simp+
  note inst = reader_truncated_record [OF gs c]
  from inst v
  have r: "leer_fastq (ej_grupo @ ej_truncado) = [(''@r0'', ''AC'', ''II''), (''@r1'', ''ACGT'', [])]"
    by simp
  from inst have n: "procesar_secuencia ''@r1'' ''ACGT'' [] ej_params = None"
    by blast
  from inst
  have "snd (procesar_archivo ''a.fastq'' (concat [ej_grupo] @ ej_truncado) ej_params)
               = snd (procesar_archivo ''a.fastq'' (concat [ej_grupo]) ej_params)
           \<and> conservadas_r (fst (procesar_archivo ''a.fastq'' (concat [ej_grupo] @ ej_truncado) ej_params))
               = conservadas_r (fst (procesar_archivo ''a.fastq'' (concat [ej_grupo]) ej_params))
           \<and> total_r (fst (procesar_archivo ''a.fastq'' (concat [ej_grupo] @ ej_truncado) ej_params))
               = Suc (total_r (fst (procesar_archivo ''a.fastq'' (concat [ej_grupo]) ej_params)))"
    by blast
  with base
  have f: "snd (procesar_archivo ''a.fastq'' (ej_grupo @ ej_truncado) ej_params)
       = serializar ''@r0'' ''AC'' ''II''"
    "total_r (fst (procesar_archivo ''a.fastq'' (ej_grupo @ ej_truncado) ej_params)) = 2"
    "conservadas_r (fst (procesar_archivo ''a.fastq'' (ej_grupo @ ej_truncado) ej_params)) = 1"
    by simp_all
  from g c r n f show ?thesis by blast
qed


section \<open>Adapter removal\<close>

lemma unir_Cons: "us \<noteq> [] \<Longrightarrow> unir sep (u # us) = u @ sep @ unir sep us"
  by (cases us) simp_all

lemma cortes_Cons:
  "us \<noteq> [] \<Longrightarrow>
   cortes_a_la_izquierda old (u # us)
     \<longleftrightarrow> \<not> sublist old (u @ butlast old) \<and> cortes_a_la_izquierda old us"
  by (cases us) simp_all

lemma cortes_not_Nil: "cortes_a_la_izquierda old us \<Longrightarrow> us \<noteq> []"
  by (cases us) simp_all

lemma not_sublist_butlast: "old \<noteq> [] \<Longrightarrow> \<not> sublist old (butlast old)"
proof
  assume ne: "old \<noteq> []" and "sublist old (butlast old)"
  then obtain ps ss where "butlast old = ps @ old @ ss"
    by (auto simp: sublist_def)
  then have "length (butlast old) = length ps + length old + length ss"
    by simp
  moreover have "length (butlast old) < length old"
    using ne by simp
  ultimately show False
    by simp
qed

text \<open>A character that does not start an occurrence can be put in front of the first
  piece.\<close>

lemma cortes_push:
  assumes "old \<noteq> []" and "cortes_a_la_izquierda old us"
    and "\<not> prefix old (c # unir old us)"
  shows "cortes_a_la_izquierda old ((c # hd us) # tl us)"
proof (cases us)
  case Nil
  with assms(2) show ?thesis by simp
next
  case (Cons u rest)
  show ?thesis
  proof (cases rest)
    case Nil
    with Cons assms show ?thesis
      by (simp add: sublist_Cons_right)
  next
    case (Cons v vs)
    with \<open>us = u # rest\<close> assms(2)
    have a: "\<not> sublist old (u @ butlast old)" and b: "cortes_a_la_izquierda old (v # vs)"
      by simp_all
    have whole: "c # unir old us = (c # u @ butlast old) @ [last old] @ unir old (v # vs)"
      using \<open>us = u # rest\<close> Cons assms(1) by simp
    have "\<not> prefix old (c # u @ butlast old)"
    proof
      assume "prefix old (c # u @ butlast old)"
      then have "prefix old ((c # u @ butlast old) @ [last old] @ unir old (v # vs))"
        by (rule prefix_prefix)
      with whole assms(3) show False by simp
    qed
    with a have "\<not> sublist old ((c # u) @ butlast old)"
      by (simp add: sublist_Cons_right)
    with b \<open>us = u # rest\<close> Cons show ?thesis by simp
  qed
qed

lemma replace_pieces:
  assumes ne: "old \<noteq> []"
  shows "\<exists>us. s = unir old us \<and> replace old [] s = concat us \<and> cortes_a_la_izquierda old us"
proof (induction "length s" arbitrary: s rule: less_induct)
  case less
  show ?case
  proof (cases s)
    case Nil
    with ne have "s = unir old [[]] \<and> replace old [] s = concat [[]]
        \<and> cortes_a_la_izquierda old [[]]"
      by simp
    then show ?thesis by blast
  next
    case (Cons c cs)
    show ?thesis
    proof (cases "prefix old (c # cs)")
      case True
      let ?v = "drop (length old) (c # cs)"
      from True have s: "c # cs = old @ ?v"
        by (auto simp: prefix_def)
      have "length ?v < length s"
        using ne Cons by (cases old) simp_all
      from less [OF this] obtain us where
        us: "?v = unir old us" "replace old [] ?v = concat us" "cortes_a_la_izquierda old us"
        by blast
      then have nz: "us \<noteq> []"
        by (simp add: cortes_not_Nil)
      have "c # cs = unir old ([] # us)"
        using s us(1) nz by (simp add: unir_Cons)
      moreover have "replace old [] (c # cs) = concat ([] # us)"
        using True ne us(2) by simp
      moreover have "cortes_a_la_izquierda old ([] # us)"
        using us(3) nz ne by (simp add: cortes_Cons not_sublist_butlast)
      ultimately show ?thesis
        unfolding Cons by blast
    next
      case False
      have "length cs < length s"
        using Cons by simp
      from less [OF this] obtain us where
        us: "cs = unir old us" "replace old [] cs = concat us" "cortes_a_la_izquierda old us"
        by blast
      then obtain u rest where ur: "us = u # rest"
        by (cases us) simp_all
      let ?us = "(c # u) # rest"
      have "c # cs = unir old ?us"
        using us(1) ur by (cases rest) simp_all
      moreover have "replace old [] (c # cs) = concat ?us"
        using False ne us(2) ur by simp
      moreover have "cortes_a_la_izquierda old ?us"
        using cortes_push [OF ne us(3)] False us(1) ur by simp
      ultimately show ?thesis
        unfolding Cons by blast
    qed
  qed
qed

lemma quitar_adaptador_auto:
  "adaptador p = ''auto'' \<Longrightarrow>
   quitar_adaptador p s
     = replace ''CTGTCTCTTATA'' [] (replace ''TGGAATTCTCGG'' [] (replace ''AGATCGGAAGAG'' [] s))"
  by (simp add: quitar_adaptador_def ADAPTADORES_def)

lemma recortar_adaptador: "recortar (p\<lparr>adaptador := a\<rparr>) s = recortar p s"
  by (simp add: recortar_def Let_def)

text \<open>
  Claim C8. With a literal, non-empty adapter, the sequence is a list of pieces joined by
  the adapter, cut at each leftmost occurrence in one scan from the left, and adapter
  removal returns the pieces concatenated; an empty literal changes nothing. In automatic
  mode this removal is done for the three adapters of the table, one after the other in
  table order. The qualities of an accepted record are the trimmed input qualities, the
  same for every adapter setting.
\<close>

theorem adapter_removal:
  "(adaptador p \<noteq> ''auto'' \<and> adaptador p \<noteq> [] \<longrightarrow>
      (\<exists>us. sec = unir (adaptador p) us \<and> quitar_adaptador p sec = concat us
            \<and> cortes_a_la_izquierda (adaptador p) us))
   \<and> (adaptador p = [] \<longrightarrow> quitar_adaptador p sec = sec)
   \<and> map snd ADAPTADORES = [''AGATCGGAAGAG'', ''TGGAATTCTCGG'', ''CTGTCTCTTATA'']
   \<and> (adaptador p = ''auto'' \<longrightarrow>
      (\<exists>us1 us2 us3.
          sec = unir ''AGATCGGAAGAG'' us1 \<and> cortes_a_la_izquierda ''AGATCGGAAGAG'' us1
        \<and> concat us1 = unir ''TGGAATTCTCGG'' us2 \<and> cortes_a_la_izquierda ''TGGAATTCTCGG'' us2
        \<and> concat us2 = unir ''CTGTCTCTTATA'' us3 \<and> cortes_a_la_izquierda ''CTGTCTCTTATA'' us3
        \<and> quitar_adaptador p sec = concat us3))
   \<and> (\<forall>h cal txt. procesar_secuencia h sec cal p = Some txt \<longrightarrow>
        txt = serializar h (recortar p (quitar_adaptador p sec)) (recortar p cal)
        \<and> (\<forall>a. recortar (p\<lparr>adaptador := a\<rparr>) cal = recortar p cal))"
proof -
  have lit: "\<exists>us. sec = unir (adaptador p) us \<and> quitar_adaptador p sec = concat us
            \<and> cortes_a_la_izquierda (adaptador p) us"
    if "adaptador p \<noteq> ''auto''" "adaptador p \<noteq> []"
    using replace_pieces [OF that(2), of sec] that(1) by (simp add: quitar_adaptador_def)
  have empty: "quitar_adaptador p sec = sec" if "adaptador p = []"
    using that by (rule quitar_adaptador_Nil)
  have table: "map snd ADAPTADORES = [''AGATCGGAAGAG'', ''TGGAATTCTCGG'', ''CTGTCTCTTATA'']"
    by (simp add: ADAPTADORES_def)
  have auto_mode: "\<exists>us1 us2 us3.
          sec = unir ''AGATCGGAAGAG'' us1 \<and> cortes_a_la_izquierda ''AGATCGGAAGAG'' us1
        \<and> concat us1 = unir ''TGGAATTCTCGG'' us2 \<and> cortes_a_la_izquierda ''TGGAATTCTCGG'' us2
        \<and> concat us2 = unir ''CTGTCTCTTATA'' us3 \<and> cortes_a_la_izquierda ''CTGTCTCTTATA'' us3
        \<and> quitar_adaptador p sec = concat us3"
    if "adaptador p = ''auto''"
  proof -
    obtain us1 where 1: "sec = unir ''AGATCGGAAGAG'' us1"
      "replace ''AGATCGGAAGAG'' [] sec = concat us1" "cortes_a_la_izquierda ''AGATCGGAAGAG'' us1"
      using replace_pieces [of "''AGATCGGAAGAG''" sec] by auto
    obtain us2 where 2: "concat us1 = unir ''TGGAATTCTCGG'' us2"
      "replace ''TGGAATTCTCGG'' [] (concat us1) = concat us2"
      "cortes_a_la_izquierda ''TGGAATTCTCGG'' us2"
      using replace_pieces [of "''TGGAATTCTCGG''" "concat us1"] by auto
    obtain us3 where 3: "concat us2 = unir ''CTGTCTCTTATA'' us3"
      "replace ''CTGTCTCTTATA'' [] (concat us2) = concat us3"
      "cortes_a_la_izquierda ''CTGTCTCTTATA'' us3"
      using replace_pieces [of "''CTGTCTCTTATA''" "concat us2"] by auto
    have "quitar_adaptador p sec = concat us3"
      using quitar_adaptador_auto [OF that, of sec] 1(2) 2(2) 3(2) by simp
    with 1 2 3 show ?thesis by blast
  qed
  have out: "\<forall>h cal txt. procesar_secuencia h sec cal p = Some txt \<longrightarrow>
        txt = serializar h (recortar p (quitar_adaptador p sec)) (recortar p cal)
        \<and> (\<forall>a. recortar (p\<lparr>adaptador := a\<rparr>) cal = recortar p cal)"
    using procesar_secuencia_Some recortar_adaptador by blast
  from lit empty table auto_mode out show ?thesis by blast
qed

theorem adapter_removal_witness:
  "adaptador ej_adaptador \<noteq> ''auto'' \<and> adaptador ej_adaptador \<noteq> []
   \<and> (\<exists>us. ''AACCGAC'' = unir ''AC'' us
           \<and> quitar_adaptador ej_adaptador ''AACCGAC'' = concat us
           \<and> cortes_a_la_izquierda ''AC'' us)
   \<and> quitar_adaptador ej_adaptador ''AACCGAC'' = ''ACG''
   \<and> adaptador ej_auto = ''auto''
   \<and> quitar_adaptador ej_auto ''GGAGATCGGAAGAGTTCTGTCTCTTATA'' = ''GGTT''
   \<and> procesar_secuencia ''@r1'' ''AACCGAC'' ''IIIIIII'' ej_adaptador
       = Some (serializar ''@r1'' ''ACG'' ''IIIIIII'')"
proof -
  have lit: "adaptador ej_adaptador \<noteq> ''auto''" "adaptador ej_adaptador \<noteq> []"
    "adaptador ej_adaptador = ''AC''"
    by (simp_all add: ej_adaptador_def ej_params_def)
  have au: "adaptador ej_auto = ''auto''"
    by (simp add: ej_auto_def)
  have ev: "quitar_adaptador ej_adaptador ''AACCGAC'' = ''ACG''"
    "quitar_adaptador ej_auto ''GGAGATCGGAAGAGTTCTGTCTCTTATA'' = ''GGTT''"
    by code_simp+
  have acc: "procesar_secuencia ''@r1'' ''AACCGAC'' ''IIIIIII'' ej_adaptador
       = Some (serializar ''@r1'' ''ACG'' ''IIIIIII'')"
    by code_simp
  from adapter_removal [of ej_adaptador "''AACCGAC''"] lit(1,2)
  have "\<exists>us. ''AACCGAC'' = unir (adaptador ej_adaptador) us
           \<and> quitar_adaptador ej_adaptador ''AACCGAC'' = concat us
           \<and> cortes_a_la_izquierda (adaptador ej_adaptador) us"
    by blast
  then have "\<exists>us. ''AACCGAC'' = unir ''AC'' us
           \<and> quitar_adaptador ej_adaptador ''AACCGAC'' = concat us
           \<and> cortes_a_la_izquierda ''AC'' us"
    by (simp only: lit(3))
  with lit(1,2) au ev acc show ?thesis by blast
qed

end
